theory Spec2Isabelle
  imports Main "HOL-Library.Multiset"
begin

section \<open>The model\<close>

subsection \<open>Change graph: membership of a change in a branch\<close>

text \<open>
  Rows of the tables \<open>change_edge\<close> and \<open>change_set_element\<close> of the lix schema.
  Ids are strings (UUIDs in production, short literals in the tests).
\<close>

record change_edge =
  parent_id :: string
  child_id :: string

record change_set_element =
  change_set_id :: string
  change_id :: string

text \<open>
  \<open>changeInBranch\<close> (query-utilities/change-in-branch.ts) is the SQL filter

  \<^verbatim>\<open>change.id IN (
     WITH RECURSIVE recursive_changes(id) AS (
       SELECT change_id AS id FROM change_set_element WHERE change_set_id = ?
       UNION ALL
       SELECT change_edge.parent_id AS id FROM change_edge
       INNER JOIN recursive_changes ON recursive_changes.id = change_edge.child_id)
     SELECT id FROM recursive_changes)\<close>

  SQLite evaluates a recursive common table expression with a queue: the rows of the
  initial select are queued; then, while the queue is not empty, one row is taken from
  it, added to the result table, and the recursive select is run with that single row
  standing for the recursive table, its rows being queued in turn. With \<open>UNION ALL\<close>
  no row is ever discarded as a duplicate, so the loop need not end on every edge table:
  it is a partial function, and \<open>None\<close> is the query that never returns.
\<close>

partial_function (option) recursive_changes ::
  "change_edge list \<Rightarrow> string list \<Rightarrow> string list \<Rightarrow> string list option" where
  "recursive_changes edges queue rows =
     (case queue of
        [] \<Rightarrow> Some rows
      | r # rest \<Rightarrow>
          recursive_changes edges
            (rest @ map parent_id (filter (\<lambda>e. child_id e = r) edges))
            (rows @ [r]))"

declare recursive_changes.simps [code]

text \<open>The filter itself, for the change with id \<open>cid\<close> and the branch whose change set
  is \<open>branch_change_set_id\<close>.\<close>

definition changeInBranch ::
  "change_set_element list \<Rightarrow> change_edge list \<Rightarrow> string \<Rightarrow> string \<Rightarrow> bool option" where
  "changeInBranch elems edges branch_change_set_id cid =
     map_option (\<lambda>rows. cid \<in> set rows)
       (recursive_changes edges
          (map change_id (filter (\<lambda>el. change_set_id el = branch_change_set_id) elems))
          [])"

text \<open>The parent/child relation that the edge table denotes: \<open>(p, c)\<close> for an edge from
  parent \<open>p\<close> to child \<open>c\<close>.\<close>

definition edge_rel :: "change_edge list \<Rightarrow> (string \<times> string) set" where
  "edge_rel edges = (\<lambda>e. (parent_id e, child_id e)) ` set edges"

subsection \<open>Change graph: the leaf of a change\<close>

text \<open>
  Modelled from the spec: \<open>changeIsLeafOf\<close> (query-utilities/change-is-leaf-of.ts) is
  not among the sources, only its test is. The spec describes \<open>leafOf(change)\<close> as the
  unique change reachable by repeatedly following child edges that has no further
  children, within the branch of interest, computed like the other graph queries as a
  recursive closure over the edge table. The branch of interest is given like the one of
  \<open>changeInBranch\<close>, by the id of its change set. \<open>branch_children\<close> are the children
  of a change that are in the branch: the child ids of its child edges for which
  \<open>changeInBranch\<close> answers true.
\<close>

definition branch_children ::
  "change_set_element list \<Rightarrow> change_edge list \<Rightarrow> string \<Rightarrow> string \<Rightarrow> string list" where
  "branch_children elems edges branch_change_set_id r =
     map child_id
       (filter (\<lambda>e. parent_id e = r \<and>
                     changeInBranch elems edges branch_change_set_id (child_id e) = Some True)
          edges)"

text \<open>
  Modelled from the spec: the closure over the child edges that stay in the branch,
  with the same queue discipline as \<open>recursive_changes\<close>.
\<close>

partial_function (option) descendants ::
  "change_set_element list \<Rightarrow> change_edge list \<Rightarrow> string \<Rightarrow> string list \<Rightarrow> string list \<Rightarrow>
   string list option" where
  "descendants elems edges branch_change_set_id queue rows =
     (case queue of
        [] \<Rightarrow> Some rows
      | r # rest \<Rightarrow>
          descendants elems edges branch_change_set_id
            (rest @ branch_children elems edges branch_change_set_id r)
            (rows @ [r]))"

declare descendants.simps [code]

text \<open>
  Modelled from the spec: the leaf is the one change among the given change and its
  descendants in the branch that has no child in the branch; there is no answer when the
  closure does not return or when the changes without such a child are not exactly one.
\<close>

definition leafOf ::
  "change_set_element list \<Rightarrow> change_edge list \<Rightarrow> string \<Rightarrow> string \<Rightarrow> string option" where
  "leafOf elems edges branch_change_set_id c =
     (case descendants elems edges branch_change_set_id [c] [] of
        None \<Rightarrow> None
      | Some rows \<Rightarrow>
          (case remdups
                  (filter (\<lambda>x. branch_children elems edges branch_change_set_id x = []) rows) of
             [leaf] \<Rightarrow> Some leaf
           | _ \<Rightarrow> None))"

text \<open>The edges between a change and its children in the branch, as a relation.\<close>

definition branch_rel ::
  "change_set_element list \<Rightarrow> change_edge list \<Rightarrow> string \<Rightarrow> (string \<times> string) set" where
  "branch_rel elems edges csid = {(p, c). c \<in> set (branch_children elems edges csid p)}"

text \<open>
  An example store: the chain \<open>1 \<rightarrow> 2 \<rightarrow> 3\<close> of the test, with a change \<open>0\<close> before it
  and a change \<open>4\<close> that forks from \<open>2\<close>; the branch with change set \<open>cs\<close> points at
  \<open>3\<close>, another branch at \<open>4\<close>.
\<close>

definition example_edges :: "change_edge list" where
  "example_edges =
     [\<lparr>parent_id = ''0'', child_id = ''1''\<rparr>, \<lparr>parent_id = ''1'', child_id = ''2''\<rparr>,
      \<lparr>parent_id = ''2'', child_id = ''3''\<rparr>, \<lparr>parent_id = ''2'', child_id = ''4''\<rparr>]"

definition example_elements :: "change_set_element list" where
  "example_elements =
     [\<lparr>change_set_id = ''cs'', change_id = ''3''\<rparr>,
      \<lparr>change_set_id = ''other'', change_id = ''4''\<rparr>]"

subsection \<open>The mock CSV plugin\<close>

type_synonym bytes = string

text \<open>A file handed to a plugin; only its \<open>data\<close> is read.\<close>

record lix_file =
  path :: string
  data :: bytes

text \<open>The snapshot value of the CSV plugin: \<^verbatim>\<open>type Cell = { rowIndex, columnIndex, text }\<close>.\<close>

record cell =
  rowIndex :: nat
  columnIndex :: nat
  "text" :: string

text \<open>A row of the \<open>change\<close> table (database/schema.ts), and the same row joined with the
  value of its snapshot (\<open>ChangeWithSnapshot\<close>); an absent value is a deletion.\<close>

record change =
  id' :: string
  entity_id :: string
  file_id :: string
  plugin_key :: string
  type :: string
  snapshot_id :: string
  created_at :: string

record change_with_snapshot = change +
  "value" :: "cell option"

text \<open>What \<open>detectChanges\<close> reports for one entity (\<open>DetectedChange\<close>). The fields
  \<open>type\<close> and \<open>entity_id\<close> written without a qualifier are the ones of this record.\<close>

record detected_change =
  type :: string
  entity_id :: string
  snapshot :: "cell option"

text \<open>
  \<open>papaparse.parse\<close> and \<open>papaparse.unparse\<close> belong to a library outside the
  repository: the plugin is modelled over any parser and printer, passed as parameters.
  A parse result carries the rows as arrays of strings and some metadata. The printer may
  throw (it does on an array of rows with an empty slot), so it returns an error or the
  text.
\<close>

record 'm parse_result =
  parsed_data :: "string list list"
  parsed_meta :: 'm

text \<open>The errors the plugin can end with: the \<open>Error\<close> it throws itself, the
  \<open>TypeError\<close> of JavaScript on reading or writing a property of \<open>undefined\<close>, and the
  error of \<open>executeTakeFirstOrThrow\<close> when the query has no row.\<close>

datatype error = Error string | TypeError | NoResultError

text \<open>Template literals print a number in decimal.\<close>

definition digit_char :: "nat \<Rightarrow> char" where
  "digit_char d = char_of (48 + d)"

function show_nat :: "nat \<Rightarrow> string" where
  "show_nat n =
     (if n < 10 then [digit_char n] else show_nat (n div 10) @ [digit_char (n mod 10)])"
  by pat_completeness auto
termination
  by (relation "measure (\<lambda>n. n)") auto

declare show_nat.simps [simp del]

text \<open>Reading a JavaScript array out of range gives \<open>undefined\<close>.\<close>

definition nth_opt :: "'a list \<Rightarrow> nat \<Rightarrow> 'a option" where
  "nth_opt xs i = (if i < length xs then Some (xs ! i) else None)"

definition row_length :: "'a list option \<Rightarrow> nat" where
  "row_length r = (case r of None \<Rightarrow> 0 | Some xs \<Rightarrow> length xs)"

text \<open>
  \<open>detectChanges\<close>: the body of the inner loop, the inner loop over the columns of row
  \<open>i\<close>, and the outer loop over the rows. \<open>afterText ? {...} : undefined\<close> tests the
  truthiness of the new text: the empty string is falsy.
\<close>

definition detect_cell ::
  "nat \<Rightarrow> nat \<Rightarrow> string list option \<Rightarrow> string list option \<Rightarrow> detected_change list" where
  "detect_cell i j beforeRow afterRow =
     (let beforeText = Option.bind beforeRow (\<lambda>r. nth_opt r j);
          afterText = Option.bind afterRow (\<lambda>r. nth_opt r j)
      in if beforeText \<noteq> afterText
         then [\<lparr>type = ''cell'',
                entity_id = show_nat i @ ''-'' @ show_nat j,
                snapshot = (case afterText of
                              None \<Rightarrow> None
                            | Some t \<Rightarrow> if t = [] then None
                                        else Some \<lparr>rowIndex = i, columnIndex = j, text = t\<rparr>)\<rparr>]
         else [])"

definition detect_row ::
  "nat \<Rightarrow> string list list option \<Rightarrow> string list list \<Rightarrow> detected_change list" where
  "detect_row i beforeData afterData =
     (let beforeRow = Option.bind beforeData (\<lambda>d. nth_opt d i);
          afterRow = nth_opt afterData i;
          numColumns = max (row_length beforeRow) (row_length afterRow)
      in concat (map (\<lambda>j. detect_cell i j beforeRow afterRow) [0..<numColumns]))"

definition mockCsvPlugin_detectChanges ::
  "(bytes \<Rightarrow> 'm parse_result) \<Rightarrow> lix_file option \<Rightarrow> lix_file option \<Rightarrow> detected_change list" where
  "mockCsvPlugin_detectChanges parse before after =
     (let beforeParsed = map_option (\<lambda>f. parse (data f)) before;
          afterParsed = map_option (\<lambda>f. parse (data f)) after;
          numRows = max (row_length (map_option parsed_data beforeParsed))
                        (row_length (map_option parsed_data afterParsed))
      in case afterParsed of
           None \<Rightarrow> []
         | Some ap \<Rightarrow>
             concat (map (\<lambda>i. detect_row i (map_option parsed_data beforeParsed) (parsed_data ap))
                      [0..<numRows]))"

text \<open>The text of the cell in row \<open>i\<close> and column \<open>j\<close> of parsed rows, if there is one.\<close>

definition cell_at :: "string list list \<Rightarrow> nat \<Rightarrow> nat \<Rightarrow> string option" where
  "cell_at d i j = Option.bind (nth_opt d i) (\<lambda>r. nth_opt r j)"

text \<open>
  \<open>applyChanges\<close> writes into the parsed rows by index. A JavaScript array written past
  its end grows, the slots in between staying empty (they read as \<open>undefined\<close>), and
  \<open>every\<close> skips empty slots: an array is a list of optional values, \<open>None\<close> for an
  empty slot.
\<close>

type_synonym 'a js_array = "'a option list"

definition js_get :: "'a js_array \<Rightarrow> nat \<Rightarrow> 'a option" where
  "js_get xs i = (if i < length xs then xs ! i else None)"

definition js_set :: "'a js_array \<Rightarrow> nat \<Rightarrow> 'a \<Rightarrow> 'a js_array" where
  "js_set xs i v =
     (if i < length xs then xs[i := Some v]
      else xs @ replicate (i - length xs) None @ [Some v])"

definition js_splice1 :: "'a js_array \<Rightarrow> nat \<Rightarrow> 'a js_array" where
  "js_splice1 xs i = take i xs @ drop (Suc i) xs"

definition js_every :: "('a \<Rightarrow> bool) \<Rightarrow> 'a js_array \<Rightarrow> bool" where
  "js_every P xs = list_all (\<lambda>x. case x of None \<Rightarrow> True | Some v \<Rightarrow> P v) xs"

definition js_of_rows :: "string list list \<Rightarrow> string js_array js_array" where
  "js_of_rows rows = map (\<lambda>r. Some (map Some r)) rows"

text \<open>The loop \<^verbatim>\<open>for (let i = 0; i < columnIndex; i++)\<close>: every cell before the
  column that is missing or empty becomes the empty string.\<close>

definition fill_columns :: "nat \<Rightarrow> string js_array \<Rightarrow> string js_array" where
  "fill_columns col row =
     fold (\<lambda>i r. case js_get r i of
                    None \<Rightarrow> js_set r i []
                  | Some t \<Rightarrow> if t = [] then js_set r i [] else r)
          [0..<col] row"

text \<open>The branch \<^verbatim>\<open>if (change.value)\<close>: create the row if it does not exist, fill the
  columns before the cell, write the cell.\<close>

definition set_cell :: "string js_array js_array \<Rightarrow> cell \<Rightarrow> string js_array js_array" where
  "set_cell rows c =
     (let rows1 = (case js_get rows (rowIndex c) of
                     None \<Rightarrow> js_set rows (rowIndex c) []
                   | Some _ \<Rightarrow> rows);
          row = (case js_get rows1 (rowIndex c) of None \<Rightarrow> [] | Some r \<Rightarrow> r)
      in js_set rows1 (rowIndex c)
           (js_set (fill_columns (columnIndex c) row) (columnIndex c) (text c)))"

definition missing_parent_message :: string where
  "missing_parent_message =
     ''Expected a previous change to exist if a value is undefined (a deletion)''"

text \<open>
  The \<open>else\<close> branch, a deletion. \<open>getParentChange\<close>
  (query-utilities/get-parent-change.ts) is not among the sources and is a parameter:
  the parent change of a change, if it has one. \<open>snapshot_value\<close> is the lookup of a
  row of the snapshot table by id (\<open>None\<close>: no such row; \<open>Some None\<close>: a row without
  a value, whose destructuring is a \<open>TypeError\<close>). Writing into a row that does not exist
  is a \<open>TypeError\<close> too.
\<close>

definition delete_cell ::
  "(change_with_snapshot \<Rightarrow> change option) \<Rightarrow> (string \<Rightarrow> cell option option) \<Rightarrow>
   string js_array js_array \<Rightarrow> change_with_snapshot \<Rightarrow> error + string js_array js_array" where
  "delete_cell getParentChange snapshot_value rows c =
     (case getParentChange c of
        None \<Rightarrow> Inl (Error missing_parent_message)
      | Some parent \<Rightarrow>
          (case snapshot_value (snapshot_id parent) of
             None \<Rightarrow> Inl NoResultError
           | Some None \<Rightarrow> Inl TypeError
           | Some (Some pc) \<Rightarrow>
               (case js_get rows (rowIndex pc) of
                  None \<Rightarrow> Inl TypeError
                | Some row \<Rightarrow>
                    (let row1 = js_set row (columnIndex pc) [];
                         rows1 = js_set rows (rowIndex pc) row1
                     in if js_every (\<lambda>t. t = []) row1
                        then Inr (js_splice1 rows1 (rowIndex pc))
                        else Inr rows1))))"

text \<open>The loop \<^verbatim>\<open>for (const change of changes)\<close>; an error ends it.\<close>

fun apply_loop ::
  "(change_with_snapshot \<Rightarrow> change option) \<Rightarrow> (string \<Rightarrow> cell option option) \<Rightarrow>
   string js_array js_array \<Rightarrow> change_with_snapshot list \<Rightarrow> error + string js_array js_array" where
  "apply_loop getParentChange snapshot_value rows [] = Inr rows"
| "apply_loop getParentChange snapshot_value rows (c # cs) =
     (case value c of
        Some v \<Rightarrow> apply_loop getParentChange snapshot_value (set_cell rows v) cs
      | None \<Rightarrow>
          (case delete_cell getParentChange snapshot_value rows c of
             Inl e \<Rightarrow> Inl e
           | Inr rows1 \<Rightarrow> apply_loop getParentChange snapshot_value rows1 cs))"

definition mockCsvPlugin_applyChanges ::
  "(bytes \<Rightarrow> 'm parse_result) \<Rightarrow> ('m \<Rightarrow> string js_array js_array \<Rightarrow> error + bytes) \<Rightarrow>
   (change_with_snapshot \<Rightarrow> change option) \<Rightarrow> (string \<Rightarrow> cell option option) \<Rightarrow>
   lix_file \<Rightarrow> change_with_snapshot list \<Rightarrow> error + bytes" where
  "mockCsvPlugin_applyChanges parse unparse getParentChange snapshot_value file changes =
     (let parsed = parse (data file)
      in case apply_loop getParentChange snapshot_value (js_of_rows (parsed_data parsed)) changes of
           Inl e \<Rightarrow> Inl e
         | Inr rows \<Rightarrow> unparse (parsed_meta parsed) rows)"

text \<open>
  A small stand-in for the parser and the printer in the examples below: lines are split
  at the newline and cells at the comma, with no quoting; the printer joins the cells
  that are there, and fails with a \<open>TypeError\<close> when a row slot is empty.
\<close>

fun split_on :: "char \<Rightarrow> string \<Rightarrow> string list" where
  "split_on sep [] = [] # []"
| "split_on sep (c # cs) =
     (if c = sep then [] # split_on sep cs
      else (case split_on sep cs of [] \<Rightarrow> [c] # [] | w # ws \<Rightarrow> (c # w) # ws))"

definition split_parse :: "bytes \<Rightarrow> unit parse_result" where
  "split_parse b =
     \<lparr>parsed_data = map (split_on CHR '','') (split_on CHR 0x0A b), parsed_meta = ()\<rparr>"

fun join_with :: "char \<Rightarrow> string list \<Rightarrow> string" where
  "join_with sep [] = []"
| "join_with sep [x] = x"
| "join_with sep (x # y # ys) = x @ sep # join_with sep (y # ys)"

definition join_unparse :: "unit \<Rightarrow> string js_array js_array \<Rightarrow> error + bytes" where
  "join_unparse m rows =
     (if None \<in> set rows then Inl TypeError
      else Inr (join_with CHR 0x0A
             (map (\<lambda>r. join_with CHR '',''
                         (map (\<lambda>c. case c of None \<Rightarrow> [] | Some t \<Rightarrow> t)
                              (case r of None \<Rightarrow> [] | Some cs \<Rightarrow> cs)))
                  rows)))"

subsection \<open>The snapshot store\<close>

text \<open>
  Modelled from the spec: the snapshot table and the default of its id (database/initDb.ts)
  are not among the sources, only their test is. The spec gives a snapshot the id
  "SHA-256 over the canonical serialization of the value", and the fixed sentinel id
  \<open>no-content\<close> to an absent value. The hash and the serialization are parameters.
\<close>

definition snapshot_id_of :: "(string \<Rightarrow> string) \<Rightarrow> ('v \<Rightarrow> string) \<Rightarrow> 'v option \<Rightarrow> string" where
  "snapshot_id_of sha256 serialize v =
     (case v of None \<Rightarrow> ''no-content'' | Some c \<Rightarrow> sha256 (serialize c))"

text \<open>
  Modelled from the spec: \<open>put(value) -> id\<close> "computes the canonical content hash,
  inserts the row if absent (idempotent), and returns the id". The table is the list of
  its rows, an id and a value each.
\<close>

definition put ::
  "(string \<Rightarrow> string) \<Rightarrow> ('v \<Rightarrow> string) \<Rightarrow> (string \<times> 'v option) list \<Rightarrow> 'v option \<Rightarrow>
   string \<times> (string \<times> 'v option) list" where
  "put sha256 serialize tbl v =
     (let i = snapshot_id_of sha256 serialize v
      in (i, if i \<in> fst ` set tbl then tbl else tbl @ [(i, v)]))"

section \<open>Properties\<close>

subsection \<open>Membership in a branch is the ancestor closure\<close>

lemma recursive_changes_Nil: "recursive_changes edges [] rows = Some rows"
  by (subst recursive_changes.simps) simp

lemma recursive_changes_Cons:
  "recursive_changes edges (r # rest) rows =
     recursive_changes edges
       (rest @ map parent_id (filter (\<lambda>e. child_id e = r) edges)) (rows @ [r])"
  by (subst recursive_changes.simps) simp

lemma parents_set:
  "set (map parent_id (filter (\<lambda>e. child_id e = r) edges)) = {p. (p, r) \<in> edge_rel edges}"
  by (auto simp: edge_rel_def image_iff)

lemma ancestors_step:
  "{x. (x, r) \<in> R\<^sup>*} = insert r {x. \<exists>p. (p, r) \<in> R \<and> (x, p) \<in> R\<^sup>*}"
  by (auto elim: rtranclE intro: rtrancl_into_rtrancl)

text \<open>
  On a well-founded edge relation the queue loop ends: taking a row from the queue and
  queueing its parents makes the multiset of queued rows smaller in the multiset
  extension of the relation. What it returns is what it started with and every ancestor
  of a queued row.
\<close>

lemma recursive_changes_closure:
  assumes "wf (edge_rel edges)"
  shows "\<exists>res. recursive_changes edges queue rows = Some res \<and>
           set res = set rows \<union> {x. \<exists>q \<in> set queue. (x, q) \<in> (edge_rel edges)\<^sup>*}"
proof -
  have wfm: "wf (inv_image (mult1 (edge_rel edges)) mset)"
    using assms by (simp add: wf_mult1)
  show ?thesis
  proof (induction queue arbitrary: rows rule: wf_induct_rule[OF wfm])
    case (1 queue)
    show ?case
    proof (cases queue)
      case Nil
      then show ?thesis by (simp add: recursive_changes_Nil)
    next
      case (Cons r rest)
      let ?ps = "map parent_id (filter (\<lambda>e. child_id e = r) edges)"
      have "(mset (rest @ ?ps), mset queue) \<in> mult1 (edge_rel edges)"
      proof -
        have "\<forall>b. b \<in># mset ?ps \<longrightarrow> (b, r) \<in> edge_rel edges"
          using parents_set[of r edges] by auto
        then have "\<exists>a M0 K. mset queue = add_mset a M0 \<and> mset (rest @ ?ps) = M0 + K \<and>
                 (\<forall>b. b \<in># K \<longrightarrow> (b, a) \<in> edge_rel edges)"
          unfolding Cons
          by (intro exI[of _ r] exI[of _ "mset rest"] exI[of _ "mset ?ps"]) simp
        then show ?thesis unfolding mult1_def by simp
      qed
      then have lt: "(rest @ ?ps, queue) \<in> inv_image (mult1 (edge_rel edges)) mset"
        by simp
      from "1.IH"[OF lt, of "rows @ [r]"] obtain res where
        res: "recursive_changes edges (rest @ ?ps) (rows @ [r]) = Some res"
        and sres: "set res = set (rows @ [r]) \<union>
             {x. \<exists>q \<in> set (rest @ ?ps). (x, q) \<in> (edge_rel edges)\<^sup>*}"
        by blast
      have "recursive_changes edges queue rows = Some res"
        by (simp add: Cons recursive_changes_Cons res)
      moreover have "set res = set rows \<union> {x. \<exists>q \<in> set queue. (x, q) \<in> (edge_rel edges)\<^sup>*}"
        unfolding sres Cons using ancestors_step[of r "edge_rel edges"] parents_set[of r edges]
        by auto
      ultimately show ?thesis by blast
    qed
  qed
qed

lemma wf_edge_rel: "acyclic (edge_rel edges) \<Longrightarrow> wf (edge_rel edges)"
  by (rule finite_acyclic_wf) (simp_all add: edge_rel_def)

text \<open>
  C4: on an edge table that is a directed acyclic graph (the invariant of the change
  graph), the filter returns, and it is true exactly when the change is an element of
  the branch's change set or can be reached from an element by walking parent edges,
  whatever the length of the walk.
\<close>

theorem changeInBranch_closure:
  assumes "acyclic (edge_rel edges)"
  shows "changeInBranch elems edges csid cid =
           Some (\<exists>el \<in> set elems. change_set_id el = csid \<and>
                    (cid, change_id el) \<in> (edge_rel edges)\<^sup>*)"
proof -
  let ?q = "map change_id (filter (\<lambda>el. change_set_id el = csid) elems)"
  from recursive_changes_closure[OF wf_edge_rel[OF assms]] obtain res where
    "recursive_changes edges ?q [] = Some res"
    "set res = set [] \<union> {x. \<exists>q \<in> set ?q. (x, q) \<in> (edge_rel edges)\<^sup>*}"
    by blast
  then show ?thesis by (auto simp: changeInBranch_def)
qed

text \<open>The chain \<open>1 \<rightarrow> 2 \<rightarrow> 3\<close> of the tests: change 1 is in the branch that points at
  change 3, and change 3 is not in the branch that points at change 2.\<close>

theorem changeInBranch_closure_witness:
  "acyclic (edge_rel [\<lparr>parent_id = ''1'', child_id = ''2''\<rparr>,
                      \<lparr>parent_id = ''2'', child_id = ''3''\<rparr>]) \<and>
   changeInBranch [\<lparr>change_set_id = ''cs'', change_id = ''3''\<rparr>]
     [\<lparr>parent_id = ''1'', child_id = ''2''\<rparr>, \<lparr>parent_id = ''2'', child_id = ''3''\<rparr>]
     ''cs'' ''1'' = Some True \<and>
   changeInBranch [\<lparr>change_set_id = ''cs'', change_id = ''2''\<rparr>]
     [\<lparr>parent_id = ''1'', child_id = ''2''\<rparr>, \<lparr>parent_id = ''2'', child_id = ''3''\<rparr>]
     ''cs'' ''3'' = Some False"
proof -
  let ?E = "[\<lparr>parent_id = ''1'', child_id = ''2''\<rparr>, \<lparr>parent_id = ''2'', child_id = ''3''\<rparr>]"
  have "edge_rel ?E \<subseteq> measure (\<lambda>s. of_char (hd s))"
    by (simp add: edge_rel_def)
  then have "wf (edge_rel ?E)" by (rule wf_subset[OF wf_measure])
  then have ac: "acyclic (edge_rel ?E)" by (rule wf_acyclic)
  have "changeInBranch [\<lparr>change_set_id = ''cs'', change_id = ''3''\<rparr>] ?E ''cs'' ''1'' = Some True"
    by (simp add: changeInBranch_def recursive_changes_Nil recursive_changes_Cons)
  moreover
  have "changeInBranch [\<lparr>change_set_id = ''cs'', change_id = ''2''\<rparr>] ?E ''cs'' ''3'' = Some False"
    by (simp add: changeInBranch_def recursive_changes_Nil recursive_changes_Cons)
  ultimately show ?thesis
    using ac changeInBranch_closure[OF ac,
        of "[\<lparr>change_set_id = ''cs'', change_id = ''3''\<rparr>]" "''cs''" "''1''"]
    by simp
qed

text \<open>
  Acyclicity is needed: nothing in the query stops at a change it has already seen, so
  on a cycle that a branch reaches the queue never empties and the query does not return.
\<close>

lemma recursive_changes_cycle_no_result:
  assumes "recursive_changes edges queue rows = Some res"
  shows "\<not> (edges = [\<lparr>parent_id = ''a'', child_id = ''b''\<rparr>,
                     \<lparr>parent_id = ''b'', child_id = ''a''\<rparr>] \<and>
            queue \<noteq> [] \<and> set queue \<subseteq> {''a'', ''b''})"
proof (rule recursive_changes.raw_induct[where P = "\<lambda>edges queue rows res.
          \<not> (edges = [\<lparr>parent_id = ''a'', child_id = ''b''\<rparr>,
                      \<lparr>parent_id = ''b'', child_id = ''a''\<rparr>] \<and>
             queue \<noteq> [] \<and> set queue \<subseteq> {''a'', ''b''})", OF _ assms])
  fix f :: "change_edge list \<Rightarrow> string list \<Rightarrow> string list \<Rightarrow> string list option"
  fix es :: "change_edge list" and q rs out :: "string list"
  assume IH: "\<And>es' q' rs' out'. f es' q' rs' = Some out' \<Longrightarrow>
          \<not> (es' = [\<lparr>parent_id = ''a'', child_id = ''b''\<rparr>,
                    \<lparr>parent_id = ''b'', child_id = ''a''\<rparr>] \<and>
             q' \<noteq> [] \<and> set q' \<subseteq> {''a'', ''b''})"
    and step: "(case q of [] \<Rightarrow> Some rs
               | r # rest \<Rightarrow>
                   f es (rest @ map parent_id (filter (\<lambda>e. child_id e = r) es)) (rs @ [r]))
               = Some out"
  show "\<not> (es = [\<lparr>parent_id = ''a'', child_id = ''b''\<rparr>,
                 \<lparr>parent_id = ''b'', child_id = ''a''\<rparr>] \<and>
            q \<noteq> [] \<and> set q \<subseteq> {''a'', ''b''})"
  proof
    assume inv: "es = [\<lparr>parent_id = ''a'', child_id = ''b''\<rparr>,
                      \<lparr>parent_id = ''b'', child_id = ''a''\<rparr>] \<and>
            q \<noteq> [] \<and> set q \<subseteq> {''a'', ''b''}"
    then obtain r rest where q: "q = r # rest" by (cases q) auto
    from step q
    have "f es (rest @ map parent_id (filter (\<lambda>e. child_id e = r) es)) (rs @ [r]) = Some out"
      by simp
    from IH[OF this] inv q show False by auto
  qed
qed

lemma changeInBranch_cycle_diverges:
  "changeInBranch [\<lparr>change_set_id = ''cs'', change_id = ''a''\<rparr>]
     [\<lparr>parent_id = ''a'', child_id = ''b''\<rparr>, \<lparr>parent_id = ''b'', child_id = ''a''\<rparr>]
     ''cs'' c = None"
proof -
  let ?E = "[\<lparr>parent_id = ''a'', child_id = ''b''\<rparr>, \<lparr>parent_id = ''b'', child_id = ''a''\<rparr>]"
  have "recursive_changes ?E [''a''] [] = None"
    using recursive_changes_cycle_no_result[of ?E "[''a'']" "[]"]
    by (cases "recursive_changes ?E [''a''] []") auto
  then show ?thesis by (simp add: changeInBranch_def)
qed

subsection \<open>The leaf of a linear chain\<close>

lemma descendants_Nil: "descendants elems edges csid [] rows = Some rows"
  by (subst descendants.simps) simp

lemma descendants_Cons:
  "descendants elems edges csid (r # rest) rows =
     descendants elems edges csid (rest @ branch_children elems edges csid r) (rows @ [r])"
  by (subst descendants.simps) simp

lemma branch_rel_subset: "branch_rel elems edges csid \<subseteq> edge_rel edges"
  by (auto simp: branch_rel_def branch_children_def edge_rel_def image_iff)

lemma wf_branch_rel_converse:
  assumes "acyclic (edge_rel edges)"
  shows "wf ((branch_rel elems edges csid)\<inverse>)"
proof (rule finite_acyclic_wf)
  have fin: "finite (edge_rel edges)" by (simp add: edge_rel_def)
  show "finite ((branch_rel elems edges csid)\<inverse>)"
    using finite_subset[OF branch_rel_subset fin] by simp
  have "acyclic (branch_rel elems edges csid)"
    using assms branch_rel_subset by (rule acyclic_subset)
  then show "acyclic ((branch_rel elems edges csid)\<inverse>)" by simp
qed

lemma descendants_step:
  "{x. (r, x) \<in> R\<^sup>*} = insert r {x. \<exists>p. (r, p) \<in> R \<and> (p, x) \<in> R\<^sup>*}"
  by (auto elim: converse_rtranclE intro: converse_rtrancl_into_rtrancl)

lemma descendants_closure:
  assumes "wf ((branch_rel elems edges csid)\<inverse>)"
  shows "\<exists>res. descendants elems edges csid queue rows = Some res \<and>
           set res = set rows \<union> {x. \<exists>q \<in> set queue. (q, x) \<in> (branch_rel elems edges csid)\<^sup>*}"
proof -
  let ?R = "branch_rel elems edges csid"
  have wfm: "wf (inv_image (mult1 (?R\<inverse>)) mset)"
    using assms by (simp add: wf_mult1)
  show ?thesis
  proof (induction queue arbitrary: rows rule: wf_induct_rule[OF wfm])
    case (1 queue)
    show ?case
    proof (cases queue)
      case Nil
      then show ?thesis by (simp add: descendants_Nil)
    next
      case (Cons r rest)
      let ?cs = "branch_children elems edges csid r"
      have "(mset (rest @ ?cs), mset queue) \<in> mult1 (?R\<inverse>)"
      proof -
        have "\<forall>b. b \<in># mset ?cs \<longrightarrow> (b, r) \<in> ?R\<inverse>"
          by (simp add: branch_rel_def)
        then have "\<exists>a M0 K. mset queue = add_mset a M0 \<and> mset (rest @ ?cs) = M0 + K \<and>
                 (\<forall>b. b \<in># K \<longrightarrow> (b, a) \<in> ?R\<inverse>)"
          unfolding Cons
          by (intro exI[of _ r] exI[of _ "mset rest"] exI[of _ "mset ?cs"]) simp
        then show ?thesis unfolding mult1_def by simp
      qed
      then have lt: "(rest @ ?cs, queue) \<in> inv_image (mult1 (?R\<inverse>)) mset"
        by simp
      from "1.IH"[OF lt, of "rows @ [r]"] obtain res where
        res: "descendants elems edges csid (rest @ ?cs) (rows @ [r]) = Some res"
        and sres: "set res = set (rows @ [r]) \<union> {x. \<exists>q \<in> set (rest @ ?cs). (q, x) \<in> ?R\<^sup>*}"
        by blast
      have "descendants elems edges csid queue rows = Some res"
        by (simp add: Cons descendants_Cons res)
      moreover have "set res = set rows \<union> {x. \<exists>q \<in> set queue. (q, x) \<in> ?R\<^sup>*}"
        unfolding sres Cons using descendants_step[of r ?R]
        by (auto simp: branch_rel_def)
      ultimately show ?thesis by blast
    qed
  qed
qed

lemma remdups_single: "set xs = {l} \<Longrightarrow> remdups xs = [l]"
proof -
  assume s: "set xs = {l}"
  have d: "distinct (remdups xs)" and s': "set (remdups xs) = {l}" using s by simp_all
  then have "length (remdups xs) = 1" using distinct_card[OF d] by simp
  then obtain y where "remdups xs = [y]" by (cases "remdups xs") auto
  with s' show ?thesis by simp
qed

lemma leafOf_unique_leaf:
  assumes "acyclic (edge_rel edges)"
    and "{x. (c, x) \<in> (branch_rel elems edges csid)\<^sup>* \<and> branch_children elems edges csid x = []} = {l}"
  shows "leafOf elems edges csid c = Some l"
proof -
  from descendants_closure[OF wf_branch_rel_converse[OF assms(1)], of elems csid "[c]" "[]"]
  obtain res where res: "descendants elems edges csid [c] [] = Some res"
    and sres: "set res = {x. (c, x) \<in> (branch_rel elems edges csid)\<^sup>*}"
    by auto
  have "set (filter (\<lambda>x. branch_children elems edges csid x = []) res) = {l}"
    using assms(2) sres by auto
  then have "remdups (filter (\<lambda>x. branch_children elems edges csid x = []) res) = [l]"
    by (rule remdups_single)
  with res show ?thesis by (simp add: leafOf_def)
qed

text \<open>
  A chain of any length: when each change of the list has the next one as its only child
  in the branch and the last one has none, the leaf of every change of the list is the
  last one.
\<close>

lemma leafOf_chain:
  assumes ac: "acyclic (edge_rel edges)"
    and ne: "xs \<noteq> []"
    and step: "\<And>i. Suc i < length xs \<Longrightarrow>
                 set (branch_children elems edges csid (xs ! i)) = {xs ! Suc i}"
    and leaf: "branch_children elems edges csid (last xs) = []"
    and x: "x \<in> set xs"
  shows "leafOf elems edges csid x = Some (last xs)"
proof (rule leafOf_unique_leaf[OF ac])
  let ?R = "branch_rel elems edges csid"
  from x obtain k where k: "k < length xs" "x = xs ! k" by (auto simp: in_set_conv_nth)
  have reach: "j < length xs \<Longrightarrow> k \<le> j \<Longrightarrow> (x, xs ! j) \<in> ?R\<^sup>*" for j
  proof (induction j)
    case 0
    then show ?case using k by simp
  next
    case (Suc j)
    show ?case
    proof (cases "k \<le> j")
      case True
      with Suc have "(x, xs ! j) \<in> ?R\<^sup>*" by simp
      moreover have "(xs ! j, xs ! Suc j) \<in> ?R"
        using step[of j] Suc.prems(1) by (simp add: branch_rel_def)
      ultimately show ?thesis by (rule rtrancl_into_rtrancl)
    next
      case False
      with Suc.prems have "Suc j = k" by simp
      then show ?thesis using k by simp
    qed
  qed
  have inside: "(x, y) \<in> ?R\<^sup>* \<Longrightarrow> y \<in> set xs" for y
  proof (induction rule: rtrancl_induct)
    case base
    then show ?case by (rule x)
  next
    case (step y z)
    from step.IH obtain i where i: "i < length xs" "y = xs ! i" by (auto simp: in_set_conv_nth)
    from step.hyps(2) have z: "z \<in> set (branch_children elems edges csid y)"
      by (simp add: branch_rel_def)
    show ?case
    proof (cases "Suc i < length xs")
      case True
      with assms(3)[of i] z i show ?thesis by simp
    next
      case False
      with i have "i = length xs - 1" by simp
      with i ne have "y = last xs" by (simp add: last_conv_nth)
      with leaf z show ?thesis by simp
    qed
  qed
  have lastx: "last xs = xs ! (length xs - 1)" using ne by (simp add: last_conv_nth)
  show "{y. (x, y) \<in> ?R\<^sup>* \<and> branch_children elems edges csid y = []} = {last xs}"
  proof (intro equalityI subsetI)
    fix y assume "y \<in> {y. (x, y) \<in> ?R\<^sup>* \<and> branch_children elems edges csid y = []}"
    then have r: "(x, y) \<in> ?R\<^sup>*" and e: "branch_children elems edges csid y = []" by auto
    from inside[OF r] obtain i where i: "i < length xs" "y = xs ! i"
      by (auto simp: in_set_conv_nth)
    have "\<not> Suc i < length xs"
    proof
      assume "Suc i < length xs"
      from step[OF this] e i show False by simp
    qed
    with i have "i = length xs - 1" by simp
    with i lastx show "y \<in> {last xs}" by simp
  next
    fix y assume "y \<in> {last xs}"
    then have "y = last xs" by simp
    moreover have "(x, last xs) \<in> ?R\<^sup>*"
      unfolding lastx using reach[of "length xs - 1"] k ne by simp
    ultimately show "y \<in> {y. (x, y) \<in> ?R\<^sup>* \<and> branch_children elems edges csid y = []}"
      using leaf by simp
  qed
qed

text \<open>
  C5: in a change graph that is acyclic, whatever other changes and edges the store holds,
  when \<open>b\<close> is the only child of \<open>a\<close> in the branch, \<open>c\<close> the only child of \<open>b\<close> in
  the branch, and \<open>c\<close> has no child in the branch (the linear chain \<open>a \<rightarrow> b \<rightarrow> c\<close>),
  the leaf of each of the three changes is \<open>c\<close>.
\<close>

theorem leafOf_linear_chain:
  assumes "acyclic (edge_rel edges)"
    and "set (branch_children elems edges csid a) = {b}"
    and "set (branch_children elems edges csid b) = {c}"
    and "branch_children elems edges csid c = []"
  shows "leafOf elems edges csid a = Some c \<and>
         leafOf elems edges csid b = Some c \<and>
         leafOf elems edges csid c = Some c"
proof -
  have st: "\<And>i. Suc i < length [a, b, c] \<Longrightarrow>
      set (branch_children elems edges csid ([a, b, c] ! i)) = {[a, b, c] ! Suc i}"
    using assms(2,3) by (auto simp: nth_Cons split: nat.splits)
  have "x \<in> set [a, b, c] \<Longrightarrow> leafOf elems edges csid x = Some c" for x
    using leafOf_chain[OF assms(1) _ st, of x] assms(4) by simp
  then show ?thesis by simp
qed

text \<open>
  The example store: the changes 1, 2, 3 of the test form the chain in the branch \<open>cs\<close>,
  though change 1 has a parent and change 2 a second child outside the branch.
\<close>

theorem leafOf_linear_chain_witness:
  "acyclic (edge_rel example_edges) \<and>
   set (branch_children example_elements example_edges ''cs'' ''1'') = {''2''} \<and>
   set (branch_children example_elements example_edges ''cs'' ''2'') = {''3''} \<and>
   branch_children example_elements example_edges ''cs'' ''3'' = [] \<and>
   leafOf example_elements example_edges ''cs'' ''1'' = Some ''3'' \<and>
   leafOf example_elements example_edges ''cs'' ''2'' = Some ''3'' \<and>
   leafOf example_elements example_edges ''cs'' ''3'' = Some ''3''"
proof -
  have "edge_rel example_edges \<subseteq> measure (\<lambda>s. of_char (hd s))"
    by (simp add: edge_rel_def example_edges_def)
  then have "wf (edge_rel example_edges)" by (rule wf_subset[OF wf_measure])
  then have ac: "acyclic (edge_rel example_edges)" by (rule wf_acyclic)
  have c1: "set (branch_children example_elements example_edges ''cs'' ''1'') = {''2''}"
    and c2: "set (branch_children example_elements example_edges ''cs'' ''2'') = {''3''}"
    and c3: "branch_children example_elements example_edges ''cs'' ''3'' = []"
    by (simp_all add: branch_children_def changeInBranch_def example_edges_def
          example_elements_def recursive_changes_Nil recursive_changes_Cons)
  from leafOf_linear_chain[OF ac c1 c2 c3] ac c1 c2 c3 show ?thesis by blast
qed

text \<open>The leaf seen from the other branch of the example store is the change 4.\<close>

lemma leafOf_other_branch:
  "leafOf example_elements example_edges ''other'' ''1'' = Some ''4''"
proof -
  have "edge_rel example_edges \<subseteq> measure (\<lambda>s. of_char (hd s))"
    by (simp add: edge_rel_def example_edges_def)
  then have "wf (edge_rel example_edges)" by (rule wf_subset[OF wf_measure])
  then have ac: "acyclic (edge_rel example_edges)" by (rule wf_acyclic)
  have c1: "set (branch_children example_elements example_edges ''other'' ''1'') = {''2''}"
    and c2: "set (branch_children example_elements example_edges ''other'' ''2'') = {''4''}"
    and c3: "branch_children example_elements example_edges ''other'' ''4'' = []"
    by (simp_all add: branch_children_def changeInBranch_def example_edges_def
          example_elements_def recursive_changes_Nil recursive_changes_Cons)
  have st: "\<And>i. Suc i < length [''1'', ''2'', ''4''] \<Longrightarrow>
      set (branch_children example_elements example_edges ''other'' ([''1'', ''2'', ''4''] ! i))
        = {[''1'', ''2'', ''4''] ! Suc i}"
    using c1 c2 by (auto simp: nth_Cons split: nat.splits)
  show ?thesis
    using leafOf_chain[OF ac _ st, of "''1''"] c3 by simp
qed

subsection \<open>The CSV plugin reports an emptied cell as a deletion\<close>

lemma detect_cell_no_empty_text:
  "d \<in> set (detect_cell i j br ar) \<Longrightarrow> snapshot d = Some c \<Longrightarrow> text c \<noteq> []"
  by (auto simp: detect_cell_def Let_def split: if_splits option.splits)

lemma detectChanges_no_empty_text:
  assumes "d \<in> set (mockCsvPlugin_detectChanges parse before after)" and "snapshot d = Some c"
  shows "text c \<noteq> []"
  using assms
  by (auto simp: mockCsvPlugin_detectChanges_def detect_row_def Let_def split: option.splits
           dest: detect_cell_no_empty_text)

lemma detect_row_mem:
  assumes "j < max (row_length (Option.bind bd (\<lambda>d. nth_opt d i))) (row_length (nth_opt ad i))"
    and "x \<in> set (detect_cell i j (Option.bind bd (\<lambda>d. nth_opt d i)) (nth_opt ad i))"
  shows "x \<in> set (detect_row i bd ad)"
  using assms unfolding detect_row_def Let_def by auto

lemma detectChanges_mem:
  assumes "after = Some af"
    and "i < max (row_length (map_option (\<lambda>f. parsed_data (parse (data f))) before))
                 (length (parsed_data (parse (data af))))"
    and "x \<in> set (detect_row i (map_option (\<lambda>f. parsed_data (parse (data f))) before)
                     (parsed_data (parse (data af))))"
  shows "x \<in> set (mockCsvPlugin_detectChanges parse before after)"
  using assms unfolding mockCsvPlugin_detectChanges_def Let_def
  by (auto simp: row_length_def option.map_comp comp_def split: option.splits)

text \<open>
  C10: when the cell in row \<open>i\<close> and column \<open>j\<close> held a non-empty text before and holds
  the empty string after, \<open>detectChanges\<close> reports the entity \<open>i-j\<close> with an absent
  snapshot, the very record it reports when the cell is gone from the file; and no
  record it reports ever carries a snapshot whose text is the empty string.
\<close>

theorem detectChanges_emptied_cell_is_deletion:
  assumes "before = Some bf" and "after = Some af"
    and "cell_at (parsed_data (parse (data bf))) i j = Some s" and "s \<noteq> []"
    and "cell_at (parsed_data (parse (data af))) i j = Some [] \<or>
         cell_at (parsed_data (parse (data af))) i j = None"
  shows "\<lparr>type = ''cell'', entity_id = show_nat i @ ''-'' @ show_nat j, snapshot = None\<rparr>
           \<in> set (mockCsvPlugin_detectChanges parse before after) \<and>
         (\<forall>d \<in> set (mockCsvPlugin_detectChanges parse before after).
            \<forall>c. snapshot d = Some c \<longrightarrow> text c \<noteq> [])"
proof
  let ?bd = "parsed_data (parse (data bf))" and ?ad = "parsed_data (parse (data af))"
  let ?r = "\<lparr>type = ''cell'', entity_id = show_nat i @ ''-'' @ show_nat j, snapshot = None\<rparr>"
  from assms(3) obtain br where br: "nth_opt ?bd i = Some br" "nth_opt br j = Some s"
    by (auto simp: cell_at_def split: bind_splits)
  then have i: "i < length ?bd" and j: "j < length br"
    by (auto simp: nth_opt_def split: if_splits)
  have cellm: "?r \<in> set (detect_cell i j (Some br) (nth_opt ?ad i))"
    using assms(4,5) br(2)
    by (auto simp: detect_cell_def cell_at_def Let_def split: bind_splits option.splits)
  have "?r \<in> set (detect_row i (Some ?bd) ?ad)"
    by (rule detect_row_mem) (use br j cellm in \<open>auto simp: row_length_def\<close>)
  then show "?r \<in> set (mockCsvPlugin_detectChanges parse before after)"
    by (intro detectChanges_mem[where af = af and i = i])
       (use assms(1,2) i in \<open>auto simp: row_length_def\<close>)
  show "\<forall>d \<in> set (mockCsvPlugin_detectChanges parse before after).
          \<forall>c. snapshot d = Some c \<longrightarrow> text c \<noteq> []"
    using detectChanges_no_empty_text by blast
qed

text \<open>
  The file \<open>a,b\<close> edited to \<open>a,\<close> (the second cell emptied) and to \<open>a\<close> (the second
  cell deleted): the plugin reports the same single record for both.
\<close>

theorem detectChanges_emptied_cell_is_deletion_witness:
  "cell_at (parsed_data (split_parse ''a,b'')) 0 1 = Some ''b'' \<and>
   cell_at (parsed_data (split_parse ''a,'')) 0 1 = Some [] \<and>
   \<lparr>type = ''cell'', entity_id = ''0-1'', snapshot = None\<rparr>
     \<in> set (mockCsvPlugin_detectChanges split_parse
              (Some \<lparr>path = ''/f.csv'', data = ''a,b''\<rparr>)
              (Some \<lparr>path = ''/f.csv'', data = ''a,''\<rparr>)) \<and>
   mockCsvPlugin_detectChanges split_parse
     (Some \<lparr>path = ''/f.csv'', data = ''a,b''\<rparr>) (Some \<lparr>path = ''/f.csv'', data = ''a,''\<rparr>)
     = [\<lparr>type = ''cell'', entity_id = ''0-1'', snapshot = None\<rparr>] \<and>
   mockCsvPlugin_detectChanges split_parse
     (Some \<lparr>path = ''/f.csv'', data = ''a,b''\<rparr>) (Some \<lparr>path = ''/f.csv'', data = ''a''\<rparr>)
     = [\<lparr>type = ''cell'', entity_id = ''0-1'', snapshot = None\<rparr>]"
proof -
  have c1: "cell_at (parsed_data (split_parse ''a,b'')) 0 1 = Some ''b''"
    and c2: "cell_at (parsed_data (split_parse ''a,'')) 0 1 = Some []"
    by (simp_all add: cell_at_def split_parse_def nth_opt_def)
  have n: "show_nat 0 @ ''-'' @ show_nat 1 = ''0-1''"
    by code_simp
  have e1: "mockCsvPlugin_detectChanges split_parse
      (Some \<lparr>path = ''/f.csv'', data = ''a,b''\<rparr>) (Some \<lparr>path = ''/f.csv'', data = ''a,''\<rparr>)
      = [\<lparr>type = ''cell'', entity_id = ''0-1'', snapshot = None\<rparr>]"
    by code_simp
  have e2: "mockCsvPlugin_detectChanges split_parse
      (Some \<lparr>path = ''/f.csv'', data = ''a,b''\<rparr>) (Some \<lparr>path = ''/f.csv'', data = ''a''\<rparr>)
      = [\<lparr>type = ''cell'', entity_id = ''0-1'', snapshot = None\<rparr>]"
    by code_simp
  from detectChanges_emptied_cell_is_deletion[of
      "Some \<lparr>path = ''/f.csv'', data = ''a,b''\<rparr>" "\<lparr>path = ''/f.csv'', data = ''a,b''\<rparr>"
      "Some \<lparr>path = ''/f.csv'', data = ''a,''\<rparr>" "\<lparr>path = ''/f.csv'', data = ''a,''\<rparr>"
      split_parse 0 1 "''b''"] c1 c2 n
  have "\<lparr>type = ''cell'', entity_id = ''0-1'', snapshot = None\<rparr>
     \<in> set (mockCsvPlugin_detectChanges split_parse
              (Some \<lparr>path = ''/f.csv'', data = ''a,b''\<rparr>)
              (Some \<lparr>path = ''/f.csv'', data = ''a,''\<rparr>))"
    by simp
  with c1 c2 e1 e2 show ?thesis by blast
qed

subsection \<open>A deletion without a parent change is fatal\<close>

lemma apply_loop_append:
  "apply_loop g t rows (xs @ ys) =
     (case apply_loop g t rows xs of Inl e \<Rightarrow> Inl e | Inr rows1 \<Rightarrow> apply_loop g t rows1 ys)"
  by (induction xs arbitrary: rows) (auto split: option.splits sum.splits)

lemma apply_loop_missing_parent:
  assumes "value c = None" and "g c = None"
  shows "apply_loop g t rows (c # post) = Inl (Error missing_parent_message)"
  using assms by (simp add: delete_cell_def)

text \<open>
  C8: when the changes handed to \<open>applyChanges\<close> hold a deletion (a change without a
  value) that has no parent change, the call ends in an error, never in file data; and
  when the loop reaches that change (the changes before it were applied), the error is
  the one thrown for this case, with its message.
\<close>

theorem applyChanges_missing_parent_fatal:
  assumes "value c = None" and "getParentChange c = None"
  shows "(\<exists>e. mockCsvPlugin_applyChanges parse unparse getParentChange snapshot_value file
                (pre @ c # post) = Inl e) \<and>
         (\<forall>rows. apply_loop getParentChange snapshot_value
                    (js_of_rows (parsed_data (parse (data file)))) pre = Inr rows \<longrightarrow>
            mockCsvPlugin_applyChanges parse unparse getParentChange snapshot_value file
              (pre @ c # post) = Inl (Error missing_parent_message))"
  using apply_loop_missing_parent[of c getParentChange, OF assms]
  by (auto simp: mockCsvPlugin_applyChanges_def apply_loop_append Let_def split: sum.splits)

text \<open>
  The file \<open>a,b\<close>, the change that sets its second cell to \<open>x\<close>, and a deletion of an
  entity that no change precedes: the first change alone gives \<open>a,x\<close>; with the deletion
  after it the call ends in the error.
\<close>

theorem applyChanges_missing_parent_fatal_witness:
  "mockCsvPlugin_applyChanges split_parse join_unparse (\<lambda>c. None) (\<lambda>i. None)
     \<lparr>path = ''/f.csv'', data = ''a,b''\<rparr>
     [\<lparr>id' = ''c1'', change.entity_id = ''0-1'', file_id = ''f'', plugin_key = ''csv'',
       change.type = ''cell'', snapshot_id = ''s1'', created_at = ''t1'',
       value = Some \<lparr>rowIndex = 0, columnIndex = 1, text = ''x''\<rparr>\<rparr>]
     = Inr ''a,x'' \<and>
   mockCsvPlugin_applyChanges split_parse join_unparse (\<lambda>c. None) (\<lambda>i. None)
     \<lparr>path = ''/f.csv'', data = ''a,b''\<rparr>
     [\<lparr>id' = ''c1'', change.entity_id = ''0-1'', file_id = ''f'', plugin_key = ''csv'',
       change.type = ''cell'', snapshot_id = ''s1'', created_at = ''t1'',
       value = Some \<lparr>rowIndex = 0, columnIndex = 1, text = ''x''\<rparr>\<rparr>,
      \<lparr>id' = ''c2'', change.entity_id = ''3-0'', file_id = ''f'', plugin_key = ''csv'',
       change.type = ''cell'', snapshot_id = ''no-content'', created_at = ''t2'',
       value = None\<rparr>]
     = Inl (Error missing_parent_message)"
proof -
  let ?f = "\<lparr>path = ''/f.csv'', data = ''a,b''\<rparr>"
  let ?set = "\<lparr>id' = ''c1'', change.entity_id = ''0-1'', file_id = ''f'', plugin_key = ''csv'',
       change.type = ''cell'', snapshot_id = ''s1'', created_at = ''t1'',
       value = Some \<lparr>rowIndex = 0, columnIndex = 1, text = ''x''\<rparr>\<rparr>"
  let ?del = "\<lparr>id' = ''c2'', change.entity_id = ''3-0'', file_id = ''f'', plugin_key = ''csv'',
       change.type = ''cell'', snapshot_id = ''no-content'', created_at = ''t2'',
       value = None\<rparr>"
  have pre: "apply_loop (\<lambda>c. None) (\<lambda>i. None) (js_of_rows (parsed_data (split_parse (data ?f))))
               [?set] = Inr [Some [Some ''a'', Some ''x'']]"
    by code_simp
  have ok: "mockCsvPlugin_applyChanges split_parse join_unparse (\<lambda>c. None) (\<lambda>i. None) ?f [?set]
              = Inr ''a,x''"
    by code_simp
  from applyChanges_missing_parent_fatal[of ?del "\<lambda>c. None" split_parse join_unparse
      "\<lambda>i. None" ?f "[?set]" "[]"] pre
  have "mockCsvPlugin_applyChanges split_parse join_unparse (\<lambda>c. None) (\<lambda>i. None) ?f
          [?set, ?del] = Inl (Error missing_parent_message)"
    by simp
  with ok show ?thesis by blast
qed

text \<open>
  A write into row 3 of the one-row file leaves the row slots 1 and 2 empty; the stand-in
  printer, like the library's, then fails, and so does the call.
\<close>

lemma applyChanges_row_gap_example:
  "mockCsvPlugin_applyChanges split_parse join_unparse (\<lambda>c. None) (\<lambda>i. None)
     \<lparr>path = ''/f.csv'', data = ''a,b''\<rparr>
     [\<lparr>id' = ''c1'', change.entity_id = ''3-0'', file_id = ''f'', plugin_key = ''csv'',
       change.type = ''cell'', snapshot_id = ''s1'', created_at = ''t1'',
       value = Some \<lparr>rowIndex = 3, columnIndex = 0, text = ''x''\<rparr>\<rparr>]
     = Inl TypeError"
  by code_simp

subsection \<open>An absent value is stored under the sentinel id\<close>

lemma put_None_id: "fst (put sha256 serialize tbl None) = ''no-content''"
  by (simp add: put_def snapshot_id_of_def Let_def)

lemma put_None_again:
  "snd (put sha256 serialize (snd (put sha256 serialize tbl None)) None)
     = snd (put sha256 serialize tbl None)"
  by (simp add: put_def snapshot_id_of_def Let_def)

lemma put_None_repeated:
  "((\<lambda>t. snd (put sha256 serialize t None)) ^^ Suc n) tbl = snd (put sha256 serialize tbl None)"
  by (induction n) (simp_all add: put_None_again)

lemma put_None_rows:
  "length (filter (\<lambda>row. fst row = ''no-content'') (snd (put sha256 serialize tbl None)))
     = max 1 (length (filter (\<lambda>row. fst row = ''no-content'') tbl))"
proof (cases "''no-content'' \<in> fst ` set tbl")
  case True
  then have "filter (\<lambda>row. fst row = ''no-content'') tbl \<noteq> []"
    by (force simp: filter_empty_conv)
  then have "1 \<le> length (filter (\<lambda>row. fst row = ''no-content'') tbl)"
    by (simp add: Suc_le_eq)
  with True show ?thesis by (simp add: put_def snapshot_id_of_def Let_def max_def)
next
  case False
  then have "filter (\<lambda>row. fst row = ''no-content'') tbl = []"
    by (force simp: filter_empty_conv)
  with False show ?thesis by (simp add: put_def snapshot_id_of_def Let_def)
qed

text \<open>
  C6: storing an absent value returns the sentinel id \<open>no-content\<close> whatever the table
  holds; after the first such call any number of further ones leave the table as it is;
  and the table then holds one sentinel row if it held none, and as many as it held
  otherwise.
\<close>

theorem put_null_sentinel:
  "fst (put sha256 serialize tbl None) = ''no-content'' \<and>
   ((\<lambda>t. snd (put sha256 serialize t None)) ^^ Suc n) tbl
     = snd (put sha256 serialize tbl None) \<and>
   length (filter (\<lambda>row. fst row = ''no-content'') (snd (put sha256 serialize tbl None)))
     = max 1 (length (filter (\<lambda>row. fst row = ''no-content'') tbl))"
  using put_None_id put_None_repeated put_None_rows by blast

text \<open>An empty table, and three insertions of an absent value: one row.\<close>

theorem put_null_sentinel_witness:
  "fst (put (\<lambda>s. s) (\<lambda>v. v) [] None) = ''no-content'' \<and>
   ((\<lambda>t. snd (put (\<lambda>s. s) (\<lambda>v. v) t None)) ^^ 3) [] = [(''no-content'', None)]"
proof -
  have "snd (put (\<lambda>s. s) (\<lambda>v. v) [] (None :: string option)) = [(''no-content'', None)]"
    by (simp add: put_def snapshot_id_of_def Let_def)
  with put_null_sentinel[of "\<lambda>s. s" "\<lambda>v. v" "[] :: (string \<times> string option) list" 2]
  show ?thesis by (simp add: numeral_3_eq_3)
qed

end
